theory Spec2Isabelle
  imports Complex_Main "HOL-Library.Word" "HOL-Library.Multiset" "HOL-Library.Sublist"
begin

section \<open>The file system as the program sees it\<close>

text \<open>
  The program (\<^verbatim>\<open>Code.c\<close>) reaches the file system only through \<^verbatim>\<open>stat\<close>,
  \<^verbatim>\<open>opendir\<close>/\<^verbatim>\<open>readdir\<close>, \<^verbatim>\<open>fopen\<close>/\<^verbatim>\<open>fread\<close>/\<^verbatim>\<open>fwrite\<close> and \<^verbatim>\<open>mkdir\<close>.
  The source tree is a value of type \<open>node\<close>, fixed during a run; what the library calls
  answer on it is written out below. The destination side is a record of answers
  (\<open>env\<close>) together with the effects the run has had (\<open>state\<close>). The source tree and
  what the run writes are kept apart: the model is the program for the runs that write
  outside the source tree. The statements that depend on it say so, with \<open>separate\<close>.
\<close>

type_synonym byte = "8 word"
type_synonym path = string

text \<open>\<^verbatim>\<open>PATH_MAX\<close> comes from \<^verbatim>\<open>limits.h\<close>; 4096 is its value on Linux.\<close>

definition PATH_MAX :: nat where
  "PATH_MAX = 4096"

text \<open>\<^verbatim>\<open>#define BUFFER_SIZE 8192\<close>\<close>

definition BUFFER_SIZE :: nat where
  "BUFFER_SIZE = 8192"

text \<open>
  An entry of the source tree.
  \<^item> \<open>Reg ok bytes fault\<close>: a regular file with its contents; \<open>ok\<close> tells whether
    \<^verbatim>\<open>fopen(path, "rb")\<close> succeeds; \<open>fault = Some k\<close> means that reading fails with
    an I/O error at offset \<open>k\<close> (\<^verbatim>\<open>fread\<close> then returns a short count).
  \<^item> \<open>Dir ok es\<close>: a directory; \<open>ok\<close> tells whether \<^verbatim>\<open>opendir\<close> succeeds; \<open>es\<close> is what
    \<^verbatim>\<open>readdir\<close> returns, in its order: each name with the entry that name leads to.
    The pseudo-entries \<^verbatim>\<open>.\<close> and \<^verbatim>\<open>..\<close> may be among them; the program skips them by
    name.
  \<^item> \<open>Symlink t\<close>: a symbolic link; \<open>t\<close> is the entry its target resolves to, \<open>None\<close>
    when resolution fails (dangling link, too many levels).
  \<^item> \<open>Special d\<close>: a device, socket or FIFO; \<open>d\<close> is what \<^verbatim>\<open>fopen\<close> and the reads give:
    \<open>None\<close> when it cannot be opened, else the bytes it delivers (the model has no
    endless and no blocking stream).
  \<^item> \<open>Hidden n\<close>: an entry on which \<^verbatim>\<open>stat\<close> fails although \<open>n\<close> is there, as with
    \<^verbatim>\<open>EACCES\<close> in a directory that can be listed but not searched.
  A tree is what path resolution finds below the source, so it is finite: a link back
  into the tree ends where resolution gives up.
\<close>

datatype node =
    Reg bool "byte list" "nat option"
  | Dir bool "(string \<times> node) list"
  | Symlink "node option"
  | Special "byte list option"
  | Hidden node

datatype st_mode = S_IFREG | S_IFDIR | S_IFOTHER

definition S_ISREG :: "st_mode \<Rightarrow> bool" where
  "S_ISREG m = (m = S_IFREG)"

definition S_ISDIR :: "st_mode \<Rightarrow> bool" where
  "S_ISDIR m = (m = S_IFDIR)"

text \<open>
  \<^verbatim>\<open>stat\<close> follows symbolic links (it is \<^verbatim>\<open>lstat\<close> that does not), so it never
  reports a link: it reports the kind of the target, or fails. Of \<^verbatim>\<open>st_mode\<close> the
  program only asks \<^verbatim>\<open>S_ISREG\<close> and \<^verbatim>\<open>S_ISDIR\<close>; \<open>S_IFOTHER\<close> stands for every other
  file type.
\<close>

fun stat :: "node \<Rightarrow> st_mode option" where
  "stat (Reg ok bs fault) = Some S_IFREG"
| "stat (Dir ok es) = Some S_IFDIR"
| "stat (Symlink None) = None"
| "stat (Symlink (Some n)) = stat n"
| "stat (Special d) = Some S_IFOTHER"
| "stat (Hidden n) = None"

text \<open>\<^verbatim>\<open>opendir\<close> with the whole \<^verbatim>\<open>readdir\<close> sequence; it follows links as well.\<close>

fun opendir :: "node \<Rightarrow> (string \<times> node) list option" where
  "opendir (Dir ok es) = (if ok then Some es else None)"
| "opendir (Symlink (Some n)) = opendir n"
| "opendir n = None"

text \<open>
  \<^verbatim>\<open>fopen(path, "rb")\<close>: the bytes that the stream will deliver before \<^verbatim>\<open>fread\<close>
  returns 0, at the end of the file or at the read fault. A directory that can be read
  opens as well; every read from it fails (\<^verbatim>\<open>EISDIR\<close>), so it delivers nothing.
\<close>

fun fopen_rb :: "node \<Rightarrow> byte list option" where
  "fopen_rb (Reg ok bs fault) =
     (if ok then Some (case fault of None \<Rightarrow> bs | Some k \<Rightarrow> take k bs) else None)"
| "fopen_rb (Dir ok es) = (if ok then Some [] else None)"
| "fopen_rb (Symlink None) = None"
| "fopen_rb (Symlink (Some n)) = fopen_rb n"
| "fopen_rb (Special d) = d"
| "fopen_rb (Hidden n) = None"

section \<open>Process state and environment\<close>

text \<open>What the program writes to \<^verbatim>\<open>stderr\<close>, one constructor for each format string.\<close>

datatype err_msg =
    EUsage string
  | EStat path
  | EOpenSource path
  | EOpenDest path
  | EWrite path
  | EMkdir path
  | EOpendir path
  | EPathTooLong
  | EDestTooLong
  | EUnsupported

text \<open>
  What the program writes to \<^verbatim>\<open>stdout\<close>. \<open>Progress bar percent copied total\<close> is the
  line of \<^verbatim>\<open>show_progress\<close>: the 40 cells between the brackets, the percentage and the
  two counters.
\<close>

datatype out_msg =
    Progress string real nat nat
  | NoFiles
  | Done

text \<open>A \<^verbatim>\<open>FILE\<close> stream: opened for reading or for writing, on a path.\<close>

datatype stream = Rd path | Wr path

text \<open>
  The two global counters, the two output streams, the open \<^verbatim>\<open>FILE\<close> streams, and
  what has been written to the file system: the directories created and the contents of
  the files opened for writing. While a file is open for writing, its contents are the
  bytes that \<^verbatim>\<open>fwrite\<close> has taken; \<^verbatim>\<open>fclose\<close> leaves what reached the file. The
  counters are \<^verbatim>\<open>size_t\<close>; they are modelled as unbounded naturals.
\<close>

record state =
  total_files :: nat
  copied_files :: nat
  out :: "out_msg list"
  err :: "err_msg list"
  handles :: "stream list"
  mkdirs :: "path list"
  files :: "path \<Rightarrow> byte list option"

definition init :: state where
  "init = \<lparr>total_files = 0, copied_files = 0, out = [], err = [], handles = [],
           mkdirs = [], files = (\<lambda>p. None)\<rparr>"

datatype mkdir_result = Created | Eexist | Efail

text \<open>
  The file system before the run and the answers of the operating system:
  \<^item> \<open>lookup p\<close>: the entry that the path \<open>p\<close> resolves to before the run;
  \<^item> \<open>in_source p\<close>: whether \<open>p\<close>, in whatever spelling, names the source or a place
    below it;
  \<^item> \<open>mkdir_res p\<close>: the outcome of \<^verbatim>\<open>mkdir(p, 0755)\<close> for a directory the run has
    not created itself;
  \<^item> \<open>fopen_wb_ok p\<close>: whether \<^verbatim>\<open>fopen(p, "wb")\<close> succeeds once the directory of \<open>p\<close>
    is there;
  \<^item> \<open>accept p\<close>: how many bytes the stream on \<open>p\<close> takes before \<^verbatim>\<open>fwrite\<close> returns a
    short count (\<open>None\<close>: it never does; the bytes sit in the buffer of the stream);
  \<^item> \<open>room p\<close>: how many bytes the file \<open>p\<close> can hold (\<open>None\<close>: no limit); what the
    stream has taken beyond it is lost when the buffer is flushed.
\<close>

record env =
  lookup :: "path \<Rightarrow> node option"
  in_source :: "path \<Rightarrow> bool"
  mkdir_res :: "path \<Rightarrow> mkdir_result"
  fopen_wb_ok :: "path \<Rightarrow> bool"
  accept :: "path \<Rightarrow> nat option"
  room :: "path \<Rightarrow> nat option"

definition report :: "err_msg \<Rightarrow> state \<Rightarrow> state" where
  "report m s = s\<lparr>err := err s @ [m]\<rparr>"

definition print :: "out_msg \<Rightarrow> state \<Rightarrow> state" where
  "print m s = s\<lparr>out := out s @ [m]\<rparr>"

text \<open>\<^verbatim>\<open>strrchr(s, c)\<close>: the index of the last occurrence of \<open>c\<close>, if there is one.\<close>

fun strrchr :: "string \<Rightarrow> char \<Rightarrow> nat option" where
  "strrchr [] c = None"
| "strrchr (x # xs) c =
     (case strrchr xs c of
        Some i \<Rightarrow> Some (Suc i)
      | None \<Rightarrow> if x = c then Some 0 else None)"

text \<open>What reaches the file \<open>p\<close> of the bytes \<open>bs\<close> that its stream has taken.\<close>

definition written :: "env \<Rightarrow> path \<Rightarrow> byte list \<Rightarrow> byte list" where
  "written E p bs = (case room E p of None \<Rightarrow> bs | Some r \<Rightarrow> take r bs)"

text \<open>
  \<^verbatim>\<open>fclose\<close>. Closing a stream opened for writing flushes its buffer; the program
  drops the result of the call, so what does not reach the file is lost in silence.
\<close>

fun fclose :: "env \<Rightarrow> stream \<Rightarrow> state \<Rightarrow> state" where
  "fclose E (Rd p) s = s\<lparr>handles := remove1 (Rd p) (handles s)\<rparr>"
| "fclose E (Wr p) s =
     s\<lparr>handles := remove1 (Wr p) (handles s),
       files := (case files s p of
                   None \<Rightarrow> files s
                 | Some bs \<Rightarrow> (files s)(p \<mapsto> written E p bs))\<rparr>"

text \<open>\<^verbatim>\<open>stat(p, &st)\<close> on a path, before the run.\<close>

definition stat_path :: "env \<Rightarrow> path \<Rightarrow> st_mode option" where
  "stat_path E p = (case lookup E p of None \<Rightarrow> None | Some n \<Rightarrow> stat n)"

text \<open>
  The directory part of a path: what is before its last separator. \<open>dir_present\<close>
  tells whether that directory is there: made by this run, or a directory before it.
\<close>

definition dirname :: "path \<Rightarrow> path" where
  "dirname p =
     (case strrchr p (CHR ''/'') of
        None \<Rightarrow> ''.''
      | Some i \<Rightarrow> if i = 0 then ''/'' else take i p)"

definition dir_present :: "env \<Rightarrow> state \<Rightarrow> path \<Rightarrow> bool" where
  "dir_present E s d \<longleftrightarrow>
     d \<in> set (mkdirs s) \<or> (case stat_path E d of None \<Rightarrow> False | Some m \<Rightarrow> S_ISDIR m)"

text \<open>\<^verbatim>\<open>fopen(p, "wb")\<close>: whether it succeeds. It needs the directory of \<open>p\<close>.\<close>

definition fopen_wb :: "env \<Rightarrow> path \<Rightarrow> state \<Rightarrow> bool" where
  "fopen_wb E p s \<longleftrightarrow> fopen_wb_ok E p \<and> dir_present E s (dirname p)"

text \<open>
  \<^verbatim>\<open>mkdir(p, 0755) != 0 && errno != EEXIST\<close>: the result is whether the call is
  taken as a success. A directory this run created exists.
\<close>

definition mkdir :: "env \<Rightarrow> path \<Rightarrow> state \<Rightarrow> bool \<times> state" where
  "mkdir E p s =
     (if p \<in> set (mkdirs s) then (True, s)
      else case mkdir_res E p of
             Created \<Rightarrow> (True, s\<lparr>mkdirs := mkdirs s @ [p]\<rparr>)
           | Eexist \<Rightarrow> (True, s)
           | Efail \<Rightarrow> (False, s))"

text \<open>
  \<^verbatim>\<open>fwrite(buf, 1, n, fdst)\<close>: the count it returns, and the bytes the stream has taken
  after it.
\<close>

definition fwrite :: "env \<Rightarrow> path \<Rightarrow> byte list \<Rightarrow> state \<Rightarrow> nat \<times> state" where
  "fwrite E p buf s =
     (let old = (case files s p of None \<Rightarrow> [] | Some bs \<Rightarrow> bs);
          wrote = (case accept E p of
                     None \<Rightarrow> length buf
                   | Some a \<Rightarrow> min (length buf) (a - length old))
      in (wrote, s\<lparr>files := (files s)(p \<mapsto> old @ take wrote buf)\<rparr>))"

section \<open>The program\<close>

subsection \<open>\<^verbatim>\<open>count_files\<close>\<close>

definition entries_size :: "(string \<times> node) list \<Rightarrow> nat" where
  "entries_size es = size_list (\<lambda>e. Suc (size (snd e))) es"

lemma entries_size_simps:
  "entries_size [] = 0"
  "entries_size (e # es) = Suc (Suc (size (snd e))) + entries_size es"
  by (simp_all add: entries_size_def)

lemma entries_size_Dir: "entries_size es < size (Dir ok es)"
  by (induction es) (auto simp: entries_size_def)

lemma entries_size_less: "entries_size es < Suc (size_list (size_prod (\<lambda>x. 0) size) es)"
  using entries_size_Dir [of es True] by simp

lemma opendir_size: "opendir n = Some es \<Longrightarrow> entries_size es < size n"
proof (induction n rule: opendir.induct)
  case (1 ok es')
  then show ?case
    using entries_size_Dir [of es ok] by (auto split: if_splits)
next
  case (2 n)
  then show ?case by (auto simp: less_Suc_eq)
qed simp_all

text \<open>
  The counter \<^verbatim>\<open>total_files\<close> is passed in and returned. \<open>count_files_loop\<close> is the
  \<^verbatim>\<open>while ((e = readdir(d)) != NULL)\<close> loop over what is left of the directory
  stream. \<^verbatim>\<open>snprintf\<close> returns the length of \<^verbatim>\<open>path/name\<close>, which is never
  negative; the entry is skipped when it is \<^verbatim>\<open>sizeof(full)\<close> or more. Directory
  streams are not part of the state (\<^verbatim>\<open>closedir\<close> has no counterpart).
\<close>

function count_files :: "path \<Rightarrow> node \<Rightarrow> nat \<Rightarrow> nat"
  and count_files_loop :: "path \<Rightarrow> (string \<times> node) list \<Rightarrow> nat \<Rightarrow> nat" where
  "count_files path n cnt =
     (case stat n of
        None \<Rightarrow> cnt
      | Some m \<Rightarrow>
          if S_ISREG m then cnt + 1
          else if S_ISDIR m then
            (case opendir n of
               None \<Rightarrow> cnt
             | Some es \<Rightarrow> count_files_loop path es cnt)
          else cnt)"
| "count_files_loop path [] cnt = cnt"
| "count_files_loop path (e # es) cnt =
     (if fst e = ''.'' \<or> fst e = ''..'' then count_files_loop path es cnt
      else
        let full = path @ ''/'' @ fst e in
        if length full \<ge> PATH_MAX then count_files_loop path es cnt
        else count_files_loop path es (count_files full (snd e) cnt))"
  by pat_completeness auto
termination
  by (relation "measure (\<lambda>x. case x of
          Inl (p, n, c) \<Rightarrow> size n
        | Inr (p, es, c) \<Rightarrow> entries_size es)")
     (auto simp: entries_size_simps dest: opendir_size)

declare count_files.simps [simp del]

subsection \<open>\<^verbatim>\<open>show_progress\<close>\<close>

text \<open>
  \<^verbatim>\<open>double progress = (double)copied_files / (double)total_files * 100.0\<close> and
  \<^verbatim>\<open>int pos = (int)((progress / 100.0) * bar_width)\<close>. The \<^verbatim>\<open>double\<close> arithmetic
  is modelled by real arithmetic, without rounding; the cast to \<^verbatim>\<open>int\<close> truncates.
\<close>

definition bar_width :: int where
  "bar_width = 40"

definition progress :: "nat \<Rightarrow> nat \<Rightarrow> real" where
  "progress copied tot = real copied / real tot * 100"

definition bar_pos :: "nat \<Rightarrow> nat \<Rightarrow> int" where
  "bar_pos copied tot = \<lfloor>progress copied tot / 100 * real_of_int bar_width\<rfloor>"

text \<open>The \<^verbatim>\<open>for (int i = 0; i < bar_width; ++i)\<close> loop, from \<open>i\<close> on.\<close>

function bar_from :: "int \<Rightarrow> int \<Rightarrow> string" where
  "bar_from pos i =
     (if i < bar_width then
        (if i < pos then CHR ''=''
         else if i = pos then CHR ''>''
         else CHR '' '') # bar_from pos (i + 1)
      else [])"
  by pat_completeness auto
termination
  by (relation "measure (\<lambda>(pos, i). nat (bar_width - i))") auto

declare bar_from.simps [simp del]

definition show_progress :: "state \<Rightarrow> state" where
  "show_progress s =
     (if total_files s = 0 then s
      else print (Progress (bar_from (bar_pos (copied_files s) (total_files s)) 0)
                           (progress (copied_files s) (total_files s))
                           (copied_files s) (total_files s)) s)"

subsection \<open>\<^verbatim>\<open>copy_file\<close>\<close>

text \<open>
  The \<^verbatim>\<open>while ((n = fread(buf, 1, sizeof(buf), fsrc)) > 0)\<close> loop. \<open>rest\<close> is what
  the source stream still delivers. The result is \<open>False\<close> when the loop body has
  returned \<open>-1\<close> from \<^verbatim>\<open>copy_file\<close>. \<^verbatim>\<open>fsrc\<close> is \<open>Rd src\<close> and \<^verbatim>\<open>fdst\<close> is
  \<open>Wr dst\<close>.
\<close>

function copy_loop :: "env \<Rightarrow> path \<Rightarrow> path \<Rightarrow> byte list \<Rightarrow> state \<Rightarrow> bool \<times> state" where
  "copy_loop E src dst rest s =
     (let buf = take BUFFER_SIZE rest; n = length buf in
      if n > 0 then
        (case fwrite E dst buf s of
           (wrote, s1) \<Rightarrow>
             if wrote \<noteq> n then
               (False, fclose E (Wr dst) (fclose E (Rd src) (report (EWrite dst) s1)))
             else copy_loop E src dst (drop n rest) s1)
      else (True, s))"
  by pat_completeness auto
termination
  by (relation "measure (\<lambda>(E, src, dst, rest, s). length rest)") auto

declare copy_loop.simps [simp del]

definition copy_file :: "env \<Rightarrow> path \<Rightarrow> path \<Rightarrow> node \<Rightarrow> state \<Rightarrow> int \<times> state" where
  "copy_file E src dst n s =
     (case fopen_rb n of
        None \<Rightarrow> (- 1, report (EOpenSource src) s)
      | Some stream \<Rightarrow>
          let s1 = s\<lparr>handles := Rd src # handles s\<rparr> in
          if \<not> fopen_wb E dst s1 then
            (- 1, fclose E (Rd src) (report (EOpenDest dst) s1))
          else
            let s2 = s1\<lparr>handles := Wr dst # handles s1, files := (files s1)(dst \<mapsto> [])\<rparr> in
            (case copy_loop E src dst stream s2 of
               (False, s3) \<Rightarrow> (- 1, s3)
             | (True, s3) \<Rightarrow>
                 let s4 = fclose E (Wr dst) (fclose E (Rd src) s3);
                     s5 = s4\<lparr>copied_files := copied_files s4 + 1\<rparr>
                 in (0, show_progress s5)))"

subsection \<open>\<^verbatim>\<open>copy_dir\<close>\<close>

function copy_dir :: "env \<Rightarrow> path \<Rightarrow> path \<Rightarrow> node \<Rightarrow> state \<Rightarrow> int \<times> state"
  and copy_dir_loop :: "env \<Rightarrow> path \<Rightarrow> path \<Rightarrow> (string \<times> node) list \<Rightarrow> state \<Rightarrow> state" where
  "copy_dir E src dst n s =
     (case mkdir E dst s of
        (False, s1) \<Rightarrow> (- 1, report (EMkdir dst) s1)
      | (True, s1) \<Rightarrow>
          (case opendir n of
             None \<Rightarrow> (- 1, report (EOpendir src) s1)
           | Some es \<Rightarrow> (0, copy_dir_loop E src dst es s1)))"
| "copy_dir_loop E src dst [] s = s"
| "copy_dir_loop E src dst (e # es) s =
     (if fst e = ''.'' \<or> fst e = ''..'' then copy_dir_loop E src dst es s
      else
        let srcpath = src @ ''/'' @ fst e; dstpath = dst @ ''/'' @ fst e in
        if length srcpath \<ge> PATH_MAX \<or> length dstpath \<ge> PATH_MAX then
          copy_dir_loop E src dst es (report EPathTooLong s)
        else
          (case stat (snd e) of
             None \<Rightarrow> copy_dir_loop E src dst es (report (EStat srcpath) s)
           | Some m \<Rightarrow>
               if S_ISDIR m then
                 copy_dir_loop E src dst es (snd (copy_dir E srcpath dstpath (snd e) s))
               else if S_ISREG m then
                 copy_dir_loop E src dst es (snd (copy_file E srcpath dstpath (snd e) s))
               else copy_dir_loop E src dst es s))"
  by pat_completeness auto
termination
  by (relation "measure (\<lambda>x. case x of
          Inl (E, src, dst, n, s) \<Rightarrow> size n
        | Inr (E, src, dst, es, s) \<Rightarrow> entries_size es)")
     (auto simp: entries_size_simps dest: opendir_size)

declare copy_dir.simps [simp del]

subsection \<open>\<^verbatim>\<open>trim_trailing_slashes\<close> and \<^verbatim>\<open>main\<close>\<close>

text \<open>\<^verbatim>\<open>while (len > 1 && in[len - 1] == '/') len--\<close>\<close>

function trim_len :: "string \<Rightarrow> nat \<Rightarrow> nat" where
  "trim_len inp len =
     (if len > 1 \<and> inp ! (len - 1) = CHR ''/'' then trim_len inp (len - 1) else len)"
  by pat_completeness auto
termination
  by (relation "measure (\<lambda>(inp, len). len)") auto

declare trim_len.simps [simp del]

text \<open>
  The result is the string left in \<^verbatim>\<open>buf\<close>. \<^verbatim>\<open>bufsz\<close> is \<^verbatim>\<open>sizeof(src_trim)\<close>,
  which is not 0.
\<close>

definition trim_trailing_slashes :: "string \<Rightarrow> nat \<Rightarrow> string" where
  "trim_trailing_slashes inp bufsz =
     (let len = trim_len inp (length inp);
          len = (if len \<ge> bufsz then bufsz - 1 else len)
      in take len inp)"

text \<open>\<^verbatim>\<open>base = strrchr(s, '/'); base = (base ? base + 1 : s)\<close>\<close>

definition basename :: "string \<Rightarrow> string" where
  "basename s = (case strrchr s (CHR ''/'') of Some i \<Rightarrow> drop (i + 1) s | None \<Rightarrow> s)"

text \<open>
  \<open>main\<close> takes \<^verbatim>\<open>argv\<close> (\<^verbatim>\<open>argc\<close> is its length) and returns the exit status with
  the final state. Both \<^verbatim>\<open>stat(src, &st)\<close> and \<^verbatim>\<open>count_files(src)\<close> see the entry
  that \<^verbatim>\<open>src\<close> resolves to. \<^verbatim>\<open>stat(dst, &dstst)\<close> is \<open>stat_path\<close>.
\<close>

definition main_dir :: "env \<Rightarrow> path \<Rightarrow> path \<Rightarrow> node \<Rightarrow> state \<Rightarrow> int \<times> state" where
  "main_dir E src dst n s =
     (let src_trim = trim_trailing_slashes src PATH_MAX;
          base = basename src_trim;
          newdst = dst @ ''/'' @ base
      in if length newdst \<ge> PATH_MAX then (1, report EDestTooLong s)
         else
           (case mkdir E newdst s of
              (False, s1) \<Rightarrow> (1, report (EMkdir newdst) s1)
            | (True, s1) \<Rightarrow> (0, print Done (snd (copy_dir E src newdst n s1)))))"

definition main_reg :: "env \<Rightarrow> path \<Rightarrow> path \<Rightarrow> node \<Rightarrow> state \<Rightarrow> int \<times> state" where
  "main_reg E src dst n s =
     (let dstpath =
            (if (case stat_path E dst of None \<Rightarrow> False | Some m \<Rightarrow> S_ISDIR m)
             then dst @ ''/'' @ basename src
             else dst)
      in if length dstpath \<ge> PATH_MAX then (1, report EDestTooLong s)
         else (0, print Done (snd (copy_file E src dstpath n s))))"

definition main :: "env \<Rightarrow> string list \<Rightarrow> int \<times> state" where
  "main E argv =
     (if length argv \<noteq> 3 then
        (1, report (EUsage (case argv of [] \<Rightarrow> ''(null)'' | a # _ \<Rightarrow> a)) init)
      else
        let src = argv ! 1; dst = argv ! 2 in
        (case lookup E src of
           None \<Rightarrow> (1, report (EStat src) init)
         | Some n \<Rightarrow>
             (case stat n of
                None \<Rightarrow> (1, report (EStat src) init)
              | Some m \<Rightarrow>
                  let s = init\<lparr>total_files := count_files src n (total_files init)\<rparr> in
                  if total_files s = 0 then (0, print NoFiles s)
                  else if S_ISDIR m then main_dir E src dst n s
                  else if S_ISREG m then main_reg E src dst n s
                  else (1, report EUnsupported s))))"

section \<open>Notions used in the statements\<close>

text \<open>
  Whether the stream on \<open>dst\<close> takes \<open>len\<close> bytes without a short count from
  \<^verbatim>\<open>fwrite\<close>, and what it takes of the bytes \<open>bs\<close> when it does not.
\<close>

definition accepts :: "env \<Rightarrow> path \<Rightarrow> nat \<Rightarrow> bool" where
  "accepts E dst len = (case accept E dst of None \<Rightarrow> True | Some a \<Rightarrow> len \<le> a)"

definition taken :: "env \<Rightarrow> path \<Rightarrow> byte list \<Rightarrow> byte list" where
  "taken E dst bs = (case accept E dst of None \<Rightarrow> bs | Some a \<Rightarrow> take a bs)"

definition progress_line :: "nat \<Rightarrow> nat \<Rightarrow> out_msg" where
  "progress_line c t = Progress (bar_from (bar_pos c t) 0) (progress c t) c t"

text \<open>
  The file system with the source entries \<open>lk\<close> and the empty directory \<^verbatim>\<open>/b\<close> for the
  destination, in which no operation on the destination side fails. The places of the
  source are the paths that extend a path of \<open>lk\<close>.
\<close>

definition env_ok :: "(path \<Rightarrow> node option) \<Rightarrow> env" where
  "env_ok lk =
     \<lparr>lookup = (\<lambda>p. if p = ''/b'' then Some (Dir True []) else lk p),
      in_source = (\<lambda>p. \<exists>q \<in> set (prefixes p). lk q \<noteq> None),
      mkdir_res = (\<lambda>p. if p = ''/b'' then Eexist else Created),
      fopen_wb_ok = (\<lambda>p. True),
      accept = (\<lambda>p. None),
      room = (\<lambda>p. None)\<rparr>"

text \<open>
  Two files below \<^verbatim>\<open>/a\<close> as the source: \<^verbatim>\<open>/a/f\<close> opens, \<^verbatim>\<open>/a/g\<close> does not.
\<close>

definition env_files :: env where
  "env_files = env_ok (\<lambda>p. if p = ''/a/f'' then Some (Reg True [1, 2, 3] None)
                           else if p = ''/a/g'' then Some (Reg False [7] None)
                           else None)"

text \<open>
  The number of regular files in a tree. Symbolic links, directories and special files
  are not regular files, and the pseudo-entries of a directory lead to nothing new.
\<close>

function regular_files :: "node \<Rightarrow> nat"
  and regular_files_in :: "(string \<times> node) list \<Rightarrow> nat" where
  "regular_files (Reg ok bs fault) = 1"
| "regular_files (Dir ok es) = regular_files_in es"
| "regular_files (Symlink t) = 0"
| "regular_files (Special d) = 0"
| "regular_files (Hidden n) = regular_files n"
| "regular_files_in [] = 0"
| "regular_files_in (e # es) =
     (if fst e = ''.'' \<or> fst e = ''..'' then 0 else regular_files (snd e))
       + regular_files_in es"
  by pat_completeness auto
termination
  by (relation "measure (\<lambda>x. case x of Inl n \<Rightarrow> size n | Inr es \<Rightarrow> entries_size es)")
     (auto simp: entries_size_simps entries_size_less)

text \<open>A tree without symbolic links.\<close>

function no_links :: "node \<Rightarrow> bool"
  and no_links_in :: "(string \<times> node) list \<Rightarrow> bool" where
  "no_links (Reg ok bs fault) = True"
| "no_links (Dir ok es) = no_links_in es"
| "no_links (Symlink t) = False"
| "no_links (Special d) = True"
| "no_links (Hidden n) = no_links n"
| "no_links_in [] = True"
| "no_links_in (e # es) = (no_links (snd e) \<and> no_links_in es)"
  by pat_completeness auto
termination
  by (relation "measure (\<lambda>x. case x of Inl n \<Rightarrow> size n | Inr es \<Rightarrow> entries_size es)")
     (auto simp: entries_size_simps entries_size_less)

text \<open>
  A tree at path \<open>p\<close> in which the scan skips nothing: no symbolic links, \<^verbatim>\<open>stat\<close>
  succeeds on every entry, every directory can be opened, and every path composed below
  \<open>p\<close> is shorter than \<^verbatim>\<open>PATH_MAX\<close>.
\<close>

function plain :: "path \<Rightarrow> node \<Rightarrow> bool"
  and plain_in :: "path \<Rightarrow> (string \<times> node) list \<Rightarrow> bool" where
  "plain p (Reg ok bs fault) = True"
| "plain p (Dir ok es) = (ok \<and> plain_in p es)"
| "plain p (Symlink t) = False"
| "plain p (Special d) = True"
| "plain p (Hidden n) = False"
| "plain_in p [] = True"
| "plain_in p (e # es) =
     ((if fst e = ''.'' \<or> fst e = ''..'' then True
       else length (p @ ''/'' @ fst e) < PATH_MAX \<and> plain (p @ ''/'' @ fst e) (snd e))
      \<and> plain_in p es)"
  by pat_completeness auto
termination
  by (relation "measure (\<lambda>x. case x of Inl (p, n) \<Rightarrow> size n | Inr (p, es) \<Rightarrow> entries_size es)")
     (auto simp: entries_size_simps entries_size_less)

text \<open>The source is a character device.\<close>

definition env_special :: env where
  "env_special = env_ok (\<lambda>p. if p = ''/dev/null'' then Some (Special (Some [])) else None)"

text \<open>A directory whose only entry is a symbolic link to a regular file of one byte.\<close>

definition link_only_dir :: node where
  "link_only_dir = Dir True [(''link'', Symlink (Some (Reg True [1] None)))]"

definition env_link :: env where
  "env_link = env_ok (\<lambda>p. if p = ''/a/dir'' then Some link_only_dir else None)"

text \<open>
  The final component of a path after its trailing separators are stripped, in the
  words of the specification.
\<close>

definition last_component :: "string \<Rightarrow> string" where
  "last_component s =
     rev (takeWhile (\<lambda>c. c \<noteq> CHR ''/'') (dropWhile (\<lambda>c. c = CHR ''/'') (rev s)))"

text \<open>A source directory given with a trailing separator, holding one file.\<close>

definition env_slash :: env where
  "env_slash = env_ok (\<lambda>p. if p = ''/a/dir/'' then Some (Dir True [(''f'', Reg True [1, 2, 3] None)])
                           else None)"

text \<open>
  The root directory as the source, holding one file; the run may not create anything
  (\<^verbatim>\<open>mkdir\<close> fails with \<^verbatim>\<open>EACCES\<close>).
\<close>

definition env_root :: env where
  "env_root =
     \<lparr>lookup = (\<lambda>p. if p = ''/'' then Some (Dir True [(''f'', Reg True [] None)]) else None),
      in_source = (\<lambda>p. True),
      mkdir_res = (\<lambda>p. Efail),
      fopen_wb_ok = (\<lambda>p. False),
      accept = (\<lambda>p. None),
      room = (\<lambda>p. None)\<rparr>"

text \<open>The same tree with the entries of its directories enumerated in another order.\<close>

inductive reordered :: "node \<Rightarrow> node \<Rightarrow> bool" where
  same: "reordered n n"
| dir: "list_all2 (\<lambda>e e'. fst e = fst e' \<and> reordered (snd e) (snd e')) es es' \<Longrightarrow>
        mset es' = mset es'' \<Longrightarrow> reordered (Dir ok es) (Dir ok es'')"
| link: "reordered n n' \<Longrightarrow> reordered (Symlink (Some n)) (Symlink (Some n'))"
| hidden: "reordered n n' \<Longrightarrow> reordered (Hidden n) (Hidden n')"

text \<open>What one entry of a directory adds to the counter.\<close>

definition count_entry :: "path \<Rightarrow> string \<times> node \<Rightarrow> nat" where
  "count_entry p e = count_files_loop p [e] 0"

text \<open>
  A file below nested directories with names of 255 characters: \<open>chain k\<close> has \<open>k\<close>
  levels of directories above the file.
\<close>

definition long_name :: string where
  "long_name = replicate 255 (CHR ''d'')"

fun chain :: "nat \<Rightarrow> node" where
  "chain 0 = Reg True [] None"
| "chain (Suc k) = Dir True [(long_name, chain k)]"







text \<open>
  The run writes outside the source tree: \<open>src\<close> and every path below it is a place of
  the source, \<open>dst\<close> and every path below it is not. Every path the program reads is
  \<open>src\<close> or below it, and every path it writes is \<open>dst\<close> or below it. This excludes
  a destination inside the source, a source inside the destination, and a copy of a file
  onto itself.
\<close>

definition below :: "path \<Rightarrow> path \<Rightarrow> bool" where
  "below d p \<longleftrightarrow> p = d \<or> prefix (d @ ''/'') p"

definition separate :: "env \<Rightarrow> path \<Rightarrow> path \<Rightarrow> bool" where
  "separate E src dst \<longleftrightarrow>
     (\<forall>p. below src p \<longrightarrow> in_source E p) \<and> (\<forall>p. below dst p \<longrightarrow> \<not> in_source E p)"











section \<open>Properties of \<^verbatim>\<open>copy_file\<close>\<close>

lemma drop_min_length: "drop (min (length xs) k) xs = drop k xs"
  by (cases "k \<le> length xs") (simp_all add: min_def)

lemma copy_loop_step_ok:
  assumes "rest \<noteq> []"
    and "fwrite E dst (take BUFFER_SIZE rest) s = (length (take BUFFER_SIZE rest), s1)"
  shows "copy_loop E src dst rest s = copy_loop E src dst (drop BUFFER_SIZE rest) s1"
proof -
  have "0 < length (take BUFFER_SIZE rest)"
    using assms(1) by (simp add: BUFFER_SIZE_def)
  then show ?thesis
    using assms(2) by (subst copy_loop.simps) (simp add: Let_def drop_min_length)
qed

lemma copy_loop_step_short:
  assumes "rest \<noteq> []"
    and "fwrite E dst (take BUFFER_SIZE rest) s = (w, s1)"
    and "w \<noteq> length (take BUFFER_SIZE rest)"
  shows "copy_loop E src dst rest s = (False, fclose E (Wr dst) (fclose E (Rd src) (report (EWrite dst) s1)))"
proof -
  have "0 < length (take BUFFER_SIZE rest)"
    using assms(1) by (simp add: BUFFER_SIZE_def)
  then show ?thesis
    using assms(2,3) by (subst copy_loop.simps) (simp add: Let_def)
qed

lemma copy_loop_Nil: "copy_loop E src dst [] s = (True, s)"
  by (subst copy_loop.simps) simp

lemma copy_loop_spec:
  assumes "files s dst = Some old" and "accepts E dst (length old)"
  shows "copy_loop E src dst rest s =
     (if accepts E dst (length old + length rest)
      then (True, s\<lparr>files := (files s)(dst \<mapsto> old @ rest)\<rparr>)
      else (False, fclose E (Wr dst) (fclose E (Rd src) (report (EWrite dst)
                     (s\<lparr>files := (files s)(dst \<mapsto> taken E dst (old @ rest))\<rparr>)))))"
  using assms
proof (induction "length rest" arbitrary: rest s old rule: less_induct)
  case less
  show ?case
  proof (cases "rest = []")
    case True
    with less.prems show ?thesis
      by (simp add: copy_loop_Nil fun_upd_idem)
  next
    case False
    define buf where "buf = take BUFFER_SIZE rest"
    define tl where "tl = drop BUFFER_SIZE rest"
    have rest: "rest = buf @ tl"
      by (simp add: buf_def tl_def)
    have n: "0 < length buf"
      using False by (simp add: buf_def BUFFER_SIZE_def)
    show ?thesis
    proof (cases "accepts E dst (length old + length buf)")
      case True
      let ?s1 = "s\<lparr>files := (files s)(dst \<mapsto> old @ buf)\<rparr>"
      have w: "fwrite E dst buf s = (length buf, ?s1)"
        using less.prems True by (auto simp: fwrite_def accepts_def split: option.splits)
      have step: "copy_loop E src dst rest s = copy_loop E src dst tl ?s1"
        unfolding tl_def buf_def using False w [unfolded buf_def] by (rule copy_loop_step_ok)
      have lt: "length tl < length rest"
        using n rest by simp
      have f1: "files ?s1 dst = Some (old @ buf)" by simp
      have f2: "accepts E dst (length (old @ buf))" using True by simp
      note ih = less.hyps [OF lt f1 f2]
      show ?thesis
        unfolding step ih by (simp add: rest add.assoc)
    next
      case False
      then obtain r where r: "accept E dst = Some r" "r < length old + length buf"
        by (auto simp: accepts_def split: option.splits)
      have old: "length old \<le> r"
        using less.prems r by (simp add: accepts_def)
      have nf: "\<not> accepts E dst (length old + length rest)"
        using r by (simp add: accepts_def rest)
      have tk: "take r (old @ rest) = old @ take (r - length old) buf"
        using old r by (simp add: rest)
      have w: "fwrite E dst buf s = (r - length old, s\<lparr>files := (files s)(dst \<mapsto> take r (old @ rest))\<rparr>)"
      proof -
        have m: "min (length buf) (r - length old) = r - length old"
          using r old by arith
        show ?thesis
          unfolding tk using less.prems(1) r(1) by (simp add: fwrite_def Let_def m)
      qed
      have ne: "r - length old \<noteq> length (take BUFFER_SIZE rest)"
        using r old by (simp add: buf_def [symmetric])
      have "copy_loop E src dst rest s =
          (False, fclose E (Wr dst) (fclose E (Rd src) (report (EWrite dst)
              (s\<lparr>files := (files s)(dst \<mapsto> take r (old @ rest))\<rparr>))))"
        using \<open>rest \<noteq> []\<close> w [unfolded buf_def] ne by (rule copy_loop_step_short)
      then show ?thesis
        using nf r by (simp add: taken_def)
    qed
  qed
qed

lemma copy_file_no_source:
  "fopen_rb n = None \<Longrightarrow> copy_file E src dst n s = (- 1, report (EOpenSource src) s)"
  by (simp add: copy_file_def)

lemma fopen_wb_handles [simp]: "fopen_wb E p (s\<lparr>handles := h\<rparr>) = fopen_wb E p s"
  by (simp add: fopen_wb_def dir_present_def)

lemma copy_file_no_dest:
  "fopen_rb n = Some bs \<Longrightarrow> \<not> fopen_wb E dst s \<Longrightarrow>
   copy_file E src dst n s = (- 1, report (EOpenDest dst) s)"
  by (simp add: copy_file_def Let_def report_def)

lemma copy_loop_fresh:
  "copy_loop E src dst bs
     (s\<lparr>handles := Wr dst # Rd src # handles s, files := (files s)(dst \<mapsto> [])\<rparr>) =
     (if accepts E dst (length bs)
      then (True, s\<lparr>handles := Wr dst # Rd src # handles s, files := (files s)(dst \<mapsto> bs)\<rparr>)
      else (False, report (EWrite dst)
                     (s\<lparr>files := (files s)(dst \<mapsto> written E dst (taken E dst bs))\<rparr>)))"
proof -
  let ?s2 = "s\<lparr>handles := Wr dst # Rd src # handles s, files := (files s)(dst \<mapsto> [])\<rparr>"
  have a: "files ?s2 dst = Some []" by simp
  have b: "accepts E dst (length ([] :: byte list))"
    by (simp add: accepts_def split: option.splits)
  show ?thesis
    unfolding copy_loop_spec [OF a b]
    by (simp add: report_def)
qed

lemma copy_file_short_write:
  "fopen_rb n = Some bs \<Longrightarrow> fopen_wb E dst s \<Longrightarrow> \<not> accepts E dst (length bs) \<Longrightarrow>
   copy_file E src dst n s =
     (- 1, report (EWrite dst)
             (s\<lparr>files := (files s)(dst \<mapsto> written E dst (taken E dst bs))\<rparr>))"
  by (simp add: copy_file_def Let_def copy_loop_fresh)

lemma copy_file_success:
  "fopen_rb n = Some bs \<Longrightarrow> fopen_wb E dst s \<Longrightarrow> accepts E dst (length bs) \<Longrightarrow>
   copy_file E src dst n s =
     (0, show_progress (s\<lparr>files := (files s)(dst \<mapsto> written E dst bs),
                           copied_files := copied_files s + 1\<rparr>))"
  by (simp add: copy_file_def Let_def copy_loop_fresh)

lemma show_progress_eq:
  "show_progress s =
     (if total_files s = 0 then s
      else print (progress_line (copied_files s) (total_files s)) s)"
  by (simp add: show_progress_def progress_line_def)

lemma show_progress_fields:
  "total_files (show_progress s) = total_files s"
  "copied_files (show_progress s) = copied_files s"
  "err (show_progress s) = err s"
  "handles (show_progress s) = handles s"
  "mkdirs (show_progress s) = mkdirs s"
  "files (show_progress s) = files s"
  "out (show_progress s) =
     out s @ (if total_files s = 0 then [] else [progress_line (copied_files s) (total_files s)])"
  by (simp_all add: show_progress_eq print_def)

lemma copy_file_cases:
  obtains
    (no_source) "fopen_rb n = None"
      "copy_file E src dst n s = (- 1, report (EOpenSource src) s)"
  | (no_dest) bs where "fopen_rb n = Some bs" "\<not> fopen_wb E dst s"
      "copy_file E src dst n s = (- 1, report (EOpenDest dst) s)"
  | (short_write) bs where "fopen_rb n = Some bs" "fopen_wb E dst s"
      "\<not> accepts E dst (length bs)"
      "copy_file E src dst n s =
         (- 1, report (EWrite dst)
                 (s\<lparr>files := (files s)(dst \<mapsto> written E dst (taken E dst bs))\<rparr>))"
  | (success) bs where "fopen_rb n = Some bs" "fopen_wb E dst s"
      "accepts E dst (length bs)"
      "copy_file E src dst n s =
         (0, show_progress (s\<lparr>files := (files s)(dst \<mapsto> written E dst bs),
                               copied_files := copied_files s + 1\<rparr>))"
proof (cases "fopen_rb n")
  case None
  then show ?thesis using no_source copy_file_no_source by blast
next
  case (Some bs)
  show ?thesis
  proof (cases "fopen_wb E dst s")
    case False
    then show ?thesis using Some no_dest copy_file_no_dest by blast
  next
    case True
    show ?thesis
    proof (cases "accepts E dst (length bs)")
      case False
      then show ?thesis using Some True short_write copy_file_short_write by blast
    next
      case fits: True
      then show ?thesis using Some True success copy_file_success by blast
    qed
  qed
qed

lemma env_ok_simps:
  "lookup (env_ok lk) ''/b'' = Some (Dir True [])"
  "p \<noteq> ''/b'' \<Longrightarrow> lookup (env_ok lk) p = lk p"
  "in_source (env_ok lk) p = (\<exists>q \<in> set (prefixes p). lk q \<noteq> None)"
  "mkdir_res (env_ok lk) p = (if p = ''/b'' then Eexist else Created)"
  "fopen_wb_ok (env_ok lk) p"
  "accept (env_ok lk) p = None"
  "room (env_ok lk) p = None"
  by (simp_all add: env_ok_def)

lemma fopen_wb_env_ok_b: "fopen_wb (env_ok lk) (''/b/'' @ name) s" if "CHR ''/'' \<notin> set name"
proof -
  have "strrchr name (CHR ''/'') = None"
    using that by (induction name) (auto split: option.splits)
  then have "dirname (''/b/'' @ name) = ''/b''"
    by (simp add: dirname_def)
  then show ?thesis
    by (simp add: fopen_wb_def dir_present_def stat_path_def env_ok_simps S_ISDIR_def)
qed

text \<open>
  In \<open>env_ok lk\<close> a destination is apart from the source \<open>src\<close> of \<open>lk\<close> when no path
  of \<open>lk\<close> is a prefix of it or has it as a prefix.
\<close>

lemma below_prefix: "below d p \<Longrightarrow> prefix d p"
  using append_prefixD [of d "''/''" p] by (auto simp: below_def)

lemma separate_env_ok:
  assumes "lk src \<noteq> None" "\<And>q. lk q \<noteq> None \<Longrightarrow> \<not> prefix q dst \<and> \<not> prefix dst q"
  shows "separate (env_ok lk) src dst"
  unfolding separate_def
proof (intro conjI allI impI)
  fix p assume "below src p"
  then have "prefix src p" by (rule below_prefix)
  then show "in_source (env_ok lk) p"
    using assms(1) by (auto simp: env_ok_simps in_set_prefixes)
next
  fix p assume "below dst p"
  then have d: "prefix dst p" by (rule below_prefix)
  show "\<not> in_source (env_ok lk) p"
  proof
    assume "in_source (env_ok lk) p"
    then obtain q where q: "prefix q p" "lk q \<noteq> None"
      by (auto simp: env_ok_simps in_set_prefixes)
    from q(1) d have "prefix q dst \<or> prefix dst q"
      by (rule prefix_same_cases)
    then show False using assms(2) [OF q(2)] by simp
  qed
qed

lemma env_files_simps:
  "fopen_wb_ok env_files p" "accept env_files p = None" "room env_files p = None"
  "fopen_wb env_files ''/b/f'' s" "fopen_wb env_files ''/b/g'' s"
  "separate env_files ''/a/f'' ''/b/f''" "separate env_files ''/a/g'' ''/b/g''"
proof -
  show "fopen_wb_ok env_files p" "accept env_files p = None" "room env_files p = None"
    by (simp_all add: env_files_def env_ok_simps)
  show "fopen_wb env_files ''/b/f'' s"
    unfolding env_files_def using fopen_wb_env_ok_b [of "''f''" _ s] by simp
  show "fopen_wb env_files ''/b/g'' s"
    unfolding env_files_def using fopen_wb_env_ok_b [of "''g''" _ s] by simp
  show "separate env_files ''/a/f'' ''/b/f''" "separate env_files ''/a/g'' ''/b/g''"
    unfolding env_files_def by (rule separate_env_ok; simp split: if_splits)+
qed

lemma separate_update [simp]:
  "separate (E\<lparr>accept := a\<rparr>) src dst = separate E src dst"
  "separate (E\<lparr>room := r\<rparr>) src dst = separate E src dst"
  by (simp_all add: separate_def)

lemma fopen_wb_update [simp]:
  "fopen_wb (E\<lparr>accept := a\<rparr>) p s = fopen_wb E p s"
  "fopen_wb (E\<lparr>room := r\<rparr>) p s = fopen_wb E p s"
  by (simp_all add: fopen_wb_def dir_present_def stat_path_def)

subsection \<open>What a call writes\<close>












text \<open>
  In the third of these runs the file \<^verbatim>\<open>/b/f\<close> can hold two bytes and \<^verbatim>\<open>fwrite\<close>
  takes all three: the call returns 0 and two bytes are in the file.
\<close>

lemma copy_file_lost_in_flush:
  "copy_file (env_files\<lparr>room := \<lambda>p. Some 2\<rparr>) ''/a/f'' ''/b/f'' (Reg True [1, 2, 3] None) init =
     (0, show_progress (init\<lparr>files := (files init)(''/b/f'' \<mapsto> [1, 2]), copied_files := 1\<rparr>))"
  by (subst copy_file_success [where bs = "[1, 2, 3]"])
     (simp_all add: env_files_simps accepts_def written_def init_def)

text \<open>
  A call that returns 0, on a destination apart from the source, leaves at the
  destination what reached the file of the bytes that the source stream delivered. For a
  file without read fault, when nothing is lost in the flush, that is the whole contents.
\<close>

lemma copy_file_exact:
  assumes "separate E src dst" "fst (copy_file E src dst n s) = 0"
  shows "files (snd (copy_file E src dst n s)) dst = map_option (written E dst) (fopen_rb n)"
  using assms(2)
  by (cases rule: copy_file_cases [of n E src dst s]) (simp_all add: show_progress_fields)

lemma copy_file_exact_no_fault:
  assumes "separate E src dst" "fst (copy_file E src dst (Reg ok bs None) s) = 0"
    and "room E dst = None"
  shows "files (snd (copy_file E src dst (Reg ok bs None) s)) dst = Some bs"
  using copy_file_exact [OF assms(1,2)] assms(2,3)
  by (cases ok) (simp_all add: copy_file_no_source written_def)

text \<open>
  Claim C2. A call of \<^verbatim>\<open>copy_file\<close> that returns success is claimed to leave the
  destination byte for byte equal to the source. The loop ends when \<^verbatim>\<open>fread\<close> returns
  0, which it does at the end of the file and also on a read error, and \<^verbatim>\<open>ferror\<close> is
  never consulted. Here the source holds three bytes and reading fails after the first:
  the call returns 0, counts the file as copied, and the destination holds one byte.
\<close>

theorem copy_file_read_fault:
  "fst (copy_file (env_ok Map.empty) ''/a/f'' ''/b/f'' (Reg True [1, 2, 3] (Some 1)) init) = 0 \<and>
   files (snd (copy_file (env_ok Map.empty) ''/a/f'' ''/b/f'' (Reg True [1, 2, 3] (Some 1)) init))
     ''/b/f'' = Some [1] \<and>
   copied_files (snd (copy_file (env_ok Map.empty) ''/a/f'' ''/b/f'' (Reg True [1, 2, 3] (Some 1)) init)) = 1"
proof -
  have "fopen_rb (Reg True [1, 2, 3] (Some 1)) = Some [1]"
    by simp
  moreover have "fopen_wb (env_ok Map.empty) ''/b/f'' init"
    using fopen_wb_env_ok_b [of "''f''" Map.empty init] by simp
  moreover have "accepts (env_ok Map.empty) ''/b/f'' (length [1 :: byte])"
    by (simp add: env_ok_simps accepts_def)
  ultimately show ?thesis
    by (simp add: copy_file_success [where bs = "[1]"] show_progress_fields init_def
          written_def env_ok_simps)
qed

section \<open>Properties of \<^verbatim>\<open>copy_dir\<close>\<close>

lemma mkdir_fst: "fst (mkdir E p s) = (p \<in> set (mkdirs s) \<or> mkdir_res E p \<noteq> Efail)"
  by (simp add: mkdir_def split: mkdir_result.splits)

text \<open>
  Claim C10. \<^verbatim>\<open>copy_dir\<close> returns 0 exactly when \<^verbatim>\<open>mkdir\<close> of the destination
  succeeds or finds it existing and \<^verbatim>\<open>opendir\<close> of the source succeeds, whatever
  happens to the children: the results of the calls made in the loop are dropped.
\<close>

theorem copy_dir_status:
  "fst (copy_dir E src dst n s) =
     (if (dst \<in> set (mkdirs s) \<or> mkdir_res E dst \<noteq> Efail) \<and> opendir n \<noteq> None
      then 0 else - 1)"
proof -
  obtain ok s1 where m: "mkdir E dst s = (ok, s1)"
    by (cases "mkdir E dst s")
  have "ok = (dst \<in> set (mkdirs s) \<or> mkdir_res E dst \<noteq> Efail)"
    using mkdir_fst [of E dst s] m by simp
  then show ?thesis
    using m by (subst copy_dir.simps) (auto split: option.splits)
qed

theorem copy_dir_status_witness:
  "fst (copy_dir (env_ok Map.empty) ''/a'' ''/b''
          (Dir True [(''g'', Reg False [7] None), (''d'', Dir False [])]) init) = 0 \<and>
   err (snd (copy_dir (env_ok Map.empty) ''/a'' ''/b''
          (Dir True [(''g'', Reg False [7] None), (''d'', Dir False [])]) init))
     = [EOpenSource ''/a/g'', EOpendir ''/a/d'']"
  using copy_dir_status [of "env_ok Map.empty" "''/a''" "''/b''"
          "Dir True [(''g'', Reg False [7] None), (''d'', Dir False [])]" init]
  by (simp add: copy_dir.simps copy_file_def mkdir_def env_ok_def init_def report_def
        PATH_MAX_def S_ISDIR_def S_ISREG_def)

section \<open>Properties of \<^verbatim>\<open>show_progress\<close>\<close>

lemma bar_from_shape:
  assumes "0 \<le> i" "i \<le> bar_width"
  shows "length (bar_from pos i) = nat (bar_width - i) \<and>
         (\<forall>k < nat (bar_width - i). bar_from pos i ! k =
            (if i + int k < pos then CHR ''='' else if i + int k = pos then CHR ''>'' else CHR '' ''))"
  using assms
proof (induction pos i rule: bar_from.induct)
  case (1 pos i)
  show ?case
  proof (cases "i < bar_width")
    case False
    then show ?thesis using "1.prems" by (subst bar_from.simps) simp
  next
    case True
    then have ih: "length (bar_from pos (i + 1)) = nat (bar_width - (i + 1))"
      "\<And>k. k < nat (bar_width - (i + 1)) \<Longrightarrow> bar_from pos (i + 1) ! k =
            (if i + 1 + int k < pos then CHR ''='' else if i + 1 + int k = pos then CHR ''>'' else CHR '' '')"
      using "1.IH" "1.prems" by auto
    have len: "length (bar_from pos i) = nat (bar_width - i)"
      using True ih(1) "1.prems" by (subst bar_from.simps) (simp add: nat_diff_distrib)
    have nth: "bar_from pos i ! k =
            (if i + int k < pos then CHR ''='' else if i + int k = pos then CHR ''>'' else CHR '' '')"
      if "k < nat (bar_width - i)" for k
    proof (cases k)
      case 0
      then show ?thesis using True by (subst bar_from.simps) simp
    next
      case (Suc j)
      then have "j < nat (bar_width - (i + 1))" using that by simp
      from ih(2) [OF this] show ?thesis
        using True Suc by (subst bar_from.simps) (simp add: add.assoc add.commute)
    qed
    show ?thesis using len nth by blast
  qed
qed

lemma bar_pos_div: "t \<noteq> 0 \<Longrightarrow> bar_pos c t = int (c * 40 div t)"
proof -
  assume "t \<noteq> 0"
  have "progress c t / 100 * real_of_int bar_width = real (c * 40) / real t"
    by (simp add: progress_def bar_width_def)
  then show ?thesis
    by (simp only: bar_pos_def floor_divide_of_nat_eq)
qed

lemma bar_pos_less: "t \<noteq> 0 \<Longrightarrow> (c * 40 div t < 40) = (c < (t::nat))"
  by (simp add: div_less_iff_less_mult mult.commute)

lemma bar_full:
  assumes "bar_width \<le> pos"
  shows "bar_from pos 0 = replicate 40 (CHR ''='')"
proof (rule nth_equalityI)
  show "length (bar_from pos 0) = length (replicate 40 (CHR ''=''))"
    using bar_from_shape [of 0 pos] by (simp add: bar_width_def)
next
  fix k assume "k < length (bar_from pos 0)"
  then have k: "k < nat (bar_width - 0)"
    using bar_from_shape [of 0 pos] by (simp add: bar_width_def)
  then have "bar_from pos 0 ! k = CHR ''=''"
    using bar_from_shape [of 0 pos] assms by (simp add: bar_width_def)
  then show "bar_from pos 0 ! k = replicate 40 (CHR ''='') ! k"
    using k by (simp add: bar_width_def)
qed

lemma bar_partial:
  assumes "p < 40"
  shows "bar_from (int p) 0 =
           replicate p (CHR ''='') @ CHR ''>'' # replicate (39 - p) (CHR '' '')"
proof (rule nth_equalityI)
  show "length (bar_from (int p) 0) =
          length (replicate p (CHR ''='') @ CHR ''>'' # replicate (39 - p) (CHR '' ''))"
    using bar_from_shape [of 0 "int p"] assms by (simp add: bar_width_def)
next
  fix k assume "k < length (bar_from (int p) 0)"
  then have k: "k < nat (bar_width - 0)"
    using bar_from_shape [of 0 "int p"] by (simp add: bar_width_def)
  then have "bar_from (int p) 0 ! k =
      (if k < p then CHR ''='' else if k = p then CHR ''>'' else CHR '' '')"
    using bar_from_shape [of 0 "int p"] by (simp add: bar_width_def)
  then show "bar_from (int p) 0 ! k =
      (replicate p (CHR ''='') @ CHR ''>'' # replicate (39 - p) (CHR '' '')) ! k"
    using k assms by (auto simp: nth_append nth_Cons' bar_width_def)
qed

text \<open>
  Claim C9, as the code has it. With \<^verbatim>\<open>total_files\<close> 0 the renderer does nothing.
  Otherwise it prints the percentage \<open>copied / total * 100\<close> and a bar of 40 cells. With
  \<open>p = \<lfloor>copied * 40 / total\<rfloor>\<close>: while \<open>copied < total\<close> the bar is \<open>p\<close> filled cells,
  one transition cell and \<open>39 - p\<close> blanks; from \<open>copied = total\<close> on, all 40 cells are
  filled and there is no transition cell. (The arithmetic of the model is exact.)
\<close>

theorem show_progress_bar:
  "(total_files s = 0 \<longrightarrow> show_progress s = s) \<and>
   (total_files s \<noteq> 0 \<longrightarrow>
      show_progress s =
        print (Progress
                 (let p = copied_files s * 40 div total_files s in
                  if copied_files s < total_files s
                  then replicate p (CHR ''='') @ CHR ''>'' # replicate (39 - p) (CHR '' '')
                  else replicate 40 (CHR ''=''))
                 (real (copied_files s) / real (total_files s) * 100)
                 (copied_files s) (total_files s)) s)"
proof (cases "total_files s = 0")
  case True
  then show ?thesis by (simp add: show_progress_def)
next
  case False
  let ?p = "copied_files s * 40 div total_files s"
  have pos: "bar_pos (copied_files s) (total_files s) = int ?p"
    using False by (rule bar_pos_div)
  have bar: "bar_from (int ?p) 0 =
      (if copied_files s < total_files s
       then replicate ?p (CHR ''='') @ CHR ''>'' # replicate (39 - ?p) (CHR '' '')
       else replicate 40 (CHR ''=''))"
  proof (cases "copied_files s < total_files s")
    case True
    then have "?p < 40" using bar_pos_less [OF False] by simp
    then show ?thesis using True bar_partial by simp
  next
    case ge: False
    then have "\<not> ?p < 40" using bar_pos_less [OF False] by simp
    then have "bar_width \<le> int ?p" by (simp add: bar_width_def)
    then show ?thesis using ge bar_full by simp
  qed
  show ?thesis
    using False by (simp add: show_progress_def pos bar progress_def Let_def)
qed

theorem show_progress_bar_witness:
  "show_progress (init\<lparr>total_files := 0, copied_files := 0\<rparr>) = init\<lparr>total_files := 0, copied_files := 0\<rparr> \<and>
   out (show_progress (init\<lparr>total_files := 4, copied_files := 1\<rparr>)) =
     [Progress (replicate 10 (CHR ''='') @ CHR ''>'' # replicate 29 (CHR '' '')) 25 1 4]"
  using show_progress_bar [of "init\<lparr>total_files := 0, copied_files := 0\<rparr>"]
        show_progress_bar [of "init\<lparr>total_files := 4, copied_files := 1\<rparr>"]
  by (simp add: init_def print_def)

text \<open>
  Claim C9 as stated asks for one transition cell after the filled cells for every pair
  of counters. At 1 of 1 files the position is 40, so the test \<^verbatim>\<open>i == pos\<close> never holds
  in the loop: the bar is 40 filled cells.
\<close>

theorem show_progress_full_bar_counterexample:
  "out (show_progress (init\<lparr>total_files := 1, copied_files := 1\<rparr>)) =
     [Progress ''========================================'' 100 1 1] \<and>
   CHR ''>'' \<notin> set ''========================================''"
  by (simp add: show_progress_def init_def print_def progress_def bar_pos_def bar_width_def
        bar_from.simps)

section \<open>Properties of \<^verbatim>\<open>count_files\<close>\<close>

lemma count_files_add_aux:
  fixes c :: nat
  shows "count_files p n k = k + count_files p n 0"
    and "count_files_loop p es k = k + count_files_loop p es 0"
proof (induction p n c and p es c arbitrary: k and k rule: count_files_count_files_loop.induct)
  case (1 path n cnt)
  show ?case
  proof (cases "stat n")
    case None
    then show ?thesis by (simp add: count_files.simps [of path n])
  next
    case (Some m)
    show ?thesis
    proof (cases "opendir n")
      case None
      then show ?thesis
        using Some by (simp add: count_files.simps [of path n])
    next
      case es: (Some es)
      show ?thesis
      proof (cases "\<not> S_ISREG m \<and> S_ISDIR m")
        case True
        have l: "count_files_loop path es k = k + count_files_loop path es 0"
          using True by (intro "1.IH" [OF Some _ _ es]) simp_all
        have "count_files path n j = count_files_loop path es j" for j
          using Some es True by (simp add: count_files.simps [of path n])
        then show ?thesis
          using l by simp
      next
        case False
        then show ?thesis
          using Some es by (auto simp: count_files.simps [of path n])
      qed
    qed
  qed
next
  case (2 path cnt)
  show ?case by simp
next
  case (3 path e es cnt)
  show ?case
  proof (cases "fst e = ''.'' \<or> fst e = ''..''")
    case True
    have "count_files_loop path es k = k + count_files_loop path es 0"
      using True by (intro "3.IH"(1))
    moreover have "count_files_loop path (e # es) j = count_files_loop path es j" for j
      using True by auto
    ultimately show ?thesis
      by simp
  next
    case False
    show ?thesis
    proof (cases "PATH_MAX \<le> length (path @ ''/'' @ fst e)")
      case True
      have "count_files_loop path es k = k + count_files_loop path es 0"
        by (rule "3.IH"(2) [OF False refl True])
      moreover have "count_files_loop path (e # es) j = count_files_loop path es j" for j
        using True False by (simp add: Let_def)
      ultimately show ?thesis
        by simp
    next
      case fit: False
      let ?full = "path @ ''/'' @ fst e"
      have a: "count_files_loop path (e # es) j =
               count_files_loop path es (count_files ?full (snd e) j)" for j
        using False fit by (simp add: Let_def)
      have b: "count_files ?full (snd e) k = k + count_files ?full (snd e) 0"
        by (rule "3.IH"(3) [OF False refl fit])
      have c: "count_files_loop path es j = j + count_files_loop path es 0" for j
        by (rule "3.IH"(4) [OF False refl fit])
      show ?thesis
        unfolding a c [of "count_files ?full (snd e) k"] c [of "count_files ?full (snd e) 0"]
        using b by simp
    qed
  qed
qed

text \<open>Induction over a tree and over the entries of a directory at once.\<close>

lemma entries_induct:
  assumes "\<And>e. e \<in> set es \<Longrightarrow> P (snd e)"
    and "Q []" and "\<And>e es. P (snd e) \<Longrightarrow> Q es \<Longrightarrow> Q (e # es)"
  shows "Q es"
  using assms(1) by (induction es) (auto intro: assms(2,3))

lemma node_entries_induct [case_names Reg Dir Dangling Link Special Hidden Nil Cons]:
  assumes "\<And>ok bs fault. P (Reg ok bs fault)"
    and "\<And>ok es. Q es \<Longrightarrow> P (Dir ok es)"
    and "P (Symlink None)"
    and "\<And>n. P n \<Longrightarrow> P (Symlink (Some n))"
    and "\<And>d. P (Special d)"
    and "\<And>n. P n \<Longrightarrow> P (Hidden n)"
    and "Q []"
    and "\<And>e es. P (snd e) \<Longrightarrow> Q es \<Longrightarrow> Q (e # es)"
  shows "P n" and "Q es"
proof -
  have P: "P n" for n
  proof (induction n)
    case (Reg ok bs fault)
    show ?case by (rule assms(1))
  next
    case (Dir ok es)
    have "Q es"
    proof (rule entries_induct [of es P Q])
      fix e assume e: "e \<in> set es"
      have "snd e \<in> Basic_BNFs.snds e"
        by (cases e) simp
      with e show "P (snd e)"
        by (rule Dir.IH)
    qed (rule assms(7), rule assms(8))
    then show ?case by (rule assms(2))
  next
    case (Symlink t)
    then show ?case
      by (cases t) (auto intro: assms(3,4))
  next
    case (Special d)
    show ?case by (rule assms(5))
  next
    case (Hidden n)
    then show ?case by (rule assms(6))
  qed
  show "P n" by (rule P)
  show "Q es"
    by (rule entries_induct [of es P Q]) (auto intro: P assms(7,8))
qed

lemma count_files_Reg: "count_files p (Reg ok bs fault) c = c + 1"
  by (simp add: count_files.simps S_ISREG_def)

lemma count_files_Dir:
  "count_files p (Dir ok es) c = (if ok then count_files_loop p es c else c)"
  by (simp add: count_files.simps S_ISREG_def S_ISDIR_def)

lemma count_files_Dangling: "count_files p (Symlink None) c = c"
  by (simp add: count_files.simps)

lemma count_files_Link: "count_files p (Symlink (Some n)) c = count_files p n c"
  by (simp add: count_files.simps [of p "Symlink (Some n)"] count_files.simps [of p n]
        split: option.splits)

lemma count_files_Special: "count_files p (Special d) c = c"
  by (simp add: count_files.simps S_ISREG_def S_ISDIR_def)

lemma count_files_Hidden: "count_files p (Hidden n) c = c"
  by (simp add: count_files.simps)

lemmas count_files_node =
  count_files_Reg count_files_Dir count_files_Dangling count_files_Link count_files_Special
  count_files_Hidden

lemma count_files_plain:
  "plain p n \<Longrightarrow> count_files p n c = c + regular_files n"
  "plain_in p es \<Longrightarrow> count_files_loop p es c = c + regular_files_in es"
proof (induction n and es arbitrary: p c and p c rule: node_entries_induct)
  case (Cons e es)
  show ?case
  proof (cases "fst e = ''.'' \<or> fst e = ''..''")
    case True
    then show ?thesis using Cons.IH(2) Cons.prems by auto
  next
    case False
    then show ?thesis
      using Cons.IH(1) [of "p @ ''/'' @ fst e" c] Cons.IH(2) Cons.prems
      by (auto simp: Let_def)
  qed
qed (simp_all add: count_files_node)

lemma count_files_no_links:
  "no_links n \<Longrightarrow> count_files p n c \<le> c + regular_files n"
  "no_links_in es \<Longrightarrow> count_files_loop p es c \<le> c + regular_files_in es"
proof (induction n and es arbitrary: p c and p c rule: node_entries_induct)
  case (Cons e es)
  have a: "count_files_loop p es k \<le> k + regular_files_in es" for k
    using Cons.IH(2) Cons.prems by simp
  have b: "count_files q (snd e) c \<le> c + regular_files (snd e)" for q
    using Cons.IH(1) Cons.prems by simp
  show ?case
  proof (cases "fst e = ''.'' \<or> fst e = ''..'' \<or> PATH_MAX \<le> length (p @ ''/'' @ fst e)")
    case True
    then show ?thesis using a [of c] by (auto simp: Let_def intro: le_trans)
  next
    case False
    then have "count_files_loop p (e # es) c =
        count_files_loop p es (count_files (p @ ''/'' @ fst e) (snd e) c)"
      by (simp add: Let_def)
    also have "\<dots> \<le> count_files (p @ ''/'' @ fst e) (snd e) c + regular_files_in es"
      by (rule a)
    also have "\<dots> \<le> c + regular_files (snd e) + regular_files_in es"
      using b by simp
    finally show ?thesis using False by simp
  qed
qed (simp_all add: count_files_node)

section \<open>Properties of \<^verbatim>\<open>main\<close>\<close>

text \<open>
  A source that is neither a directory nor a regular file is counted as no file, so
  \<^verbatim>\<open>main\<close> leaves through the "No files to copy." exit before it looks at the kind.
\<close>

lemma count_files_other:
  "stat n = Some m \<Longrightarrow> \<not> S_ISREG m \<Longrightarrow> \<not> S_ISDIR m \<Longrightarrow> count_files p n c = c"
  by (simp add: count_files.simps)

lemma main_unsupported_source:
  assumes "lookup E src = Some n" "stat n = Some m" "\<not> S_ISDIR m" "\<not> S_ISREG m"
  shows "main E [prog, src, dst] = (0, print NoFiles init)"
  using assms count_files_other [OF assms(2,4,3), of src 0]
  by (simp add: main_def init_def)

text \<open>
  Claim C6. The exit status is claimed to be 1 for an unsupported kind of source. The
  branch that prints "unsupported source type" and returns 1 comes after the test
  \<^verbatim>\<open>total_files == 0\<close>, and for such a source the count is 0: the run prints
  "No files to copy." and returns 0.
\<close>

theorem main_special_source:
  "main env_special [''cpx'', ''/dev/null'', ''/tmp/out''] = (0, print NoFiles init)"
  by (rule main_unsupported_source [where n = "Special (Some [])" and m = S_IFOTHER])
     (simp_all add: env_special_def env_ok_def S_ISDIR_def S_ISREG_def)

text \<open>
  A source without symbolic links and without regular files: nothing is written, the
  message is printed and the exit status is 0.
\<close>

lemma main_nothing_to_copy:
  assumes "lookup E src = Some n" "stat n = Some m" "no_links n" "regular_files n = 0"
  shows "main E [prog, src, dst] = (0, print NoFiles init)"
proof -
  have "count_files src n 0 = 0"
    using count_files_no_links(1) [OF assms(3), of src 0] assms(4) by simp
  then show ?thesis
    using assms(1,2) by (simp add: main_def init_def)
qed

lemma nothing_written: "mkdirs (print NoFiles init) = [] \<and> files (print NoFiles init) = (\<lambda>p. None)"
  by (simp add: print_def init_def)

text \<open>
  Claim C7. A source directory with no regular file in it is claimed to lead to
  "No files to copy." and to no write. \<^verbatim>\<open>stat\<close> follows the link, so the scan counts
  the link as a regular file, and the copy pass creates the folder and a regular file with
  the bytes of the target. (The comment in \<^verbatim>\<open>copy_dir\<close> says that links are skipped.)
\<close>

theorem main_link_only_dir:
  "regular_files link_only_dir = 0 \<and>
   fst (main env_link [''cpx'', ''/a/dir'', ''/b'']) = 0 \<and>
   mkdirs (snd (main env_link [''cpx'', ''/a/dir'', ''/b''])) = [''/b/dir''] \<and>
   files (snd (main env_link [''cpx'', ''/a/dir'', ''/b''])) ''/b/dir/link'' = Some [1] \<and>
   NoFiles \<notin> set (out (snd (main env_link [''cpx'', ''/a/dir'', ''/b''])))"
proof -
  have cnt: "count_files ''/a/dir'' link_only_dir 0 = 1"
    by (simp add: link_only_dir_def count_files_node PATH_MAX_def)
  have trim: "trim_trailing_slashes ''/a/dir'' 4096 = ''/a/dir''"
    by (simp add: trim_trailing_slashes_def trim_len.simps)
  have base: "basename ''/a/dir'' = ''dir''"
    by (simp add: basename_def)
  have dn: "dirname ''/b/dir/link'' = ''/b/dir''"
    by (simp add: dirname_def)
  have cf: "copy_file env_link ''/a/dir/link'' ''/b/dir/link'' (Symlink (Some (Reg True [1] None))) s =
      (0, show_progress (s\<lparr>files := (files s)(''/b/dir/link'' \<mapsto> [1]),
                           copied_files := copied_files s + 1\<rparr>))"
    if "''/b/dir'' \<in> set (mkdirs s)" for s
    using that
    by (subst copy_file_success [where bs = "[1]"])
       (simp_all add: env_link_def env_ok_simps accepts_def written_def fopen_wb_def
          dir_present_def dn)
  have lk: "lookup env_link ''/a/dir'' = Some link_only_dir"
    by (simp add: env_link_def env_ok_def)
  have st: "stat link_only_dir = Some S_IFDIR"
    by (simp add: link_only_dir_def)
  have od: "opendir link_only_dir = Some [(''link'', Symlink (Some (Reg True [1] None)))]"
    by (simp add: link_only_dir_def)
  have mk: "mkdir env_link ''/b/dir'' s = (if ''/b/dir'' \<in> set (mkdirs s) then (True, s)
              else (True, s\<lparr>mkdirs := mkdirs s @ [''/b/dir'']\<rparr>))" for s
    by (simp add: mkdir_def env_link_def env_ok_simps)
  have cd: "copy_dir env_link ''/a/dir'' ''/b/dir'' link_only_dir s =
      (0, show_progress (s\<lparr>files := (files s)(''/b/dir/link'' \<mapsto> [1]),
                           copied_files := copied_files s + 1\<rparr>))"
    if "''/b/dir'' \<in> set (mkdirs s)" for s
    using that by (simp add: copy_dir.simps mkdir_def od PATH_MAX_def S_ISDIR_def S_ISREG_def cf)
  have md: "main_dir env_link ''/a/dir'' ''/b'' link_only_dir s =
      (0, print Done (show_progress
            (s\<lparr>mkdirs := [''/b/dir''], files := (files s)(''/b/dir/link'' \<mapsto> [1]),
                copied_files := copied_files s + 1\<rparr>)))"
    if "mkdirs s = []" for s
    using that by (simp add: main_dir_def trim base mk cd PATH_MAX_def)
  have m: "main env_link [''cpx'', ''/a/dir'', ''/b''] =
      (0, print Done (show_progress
        (init\<lparr>total_files := 1, mkdirs := [''/b/dir''],
              files := (files init)(''/b/dir/link'' \<mapsto> [1]), copied_files := 1\<rparr>)))"
    by (simp add: main_def Let_def lk st cnt S_ISDIR_def md init_def)
  show ?thesis
    unfolding m
    by (simp add: link_only_dir_def print_def show_progress_fields init_def progress_line_def)
qed

subsection \<open>The name of the top-level folder\<close>

lemma trim_len_slashes:
  assumes "t \<noteq> []" "last t \<noteq> CHR ''/''" "j \<le> k"
  shows "trim_len (t @ replicate k (CHR ''/'')) (length t + j) = length t"
  using assms(3)
proof (induction j)
  case 0
  have "(t @ replicate k (CHR ''/'')) ! (length t - 1) = last t"
    using assms(1) by (simp add: nth_append last_conv_nth)
  then show ?case
    using assms(2) by (subst trim_len.simps) simp
next
  case (Suc j)
  have "(t @ replicate k (CHR ''/'')) ! (length t + j) = CHR ''/''"
    using Suc.prems by (simp add: nth_append)
  moreover have "1 < length t + Suc j"
    using assms(1) by (cases t) simp_all
  ultimately show ?case
    using Suc by (subst trim_len.simps) simp
qed

lemma split_trailing:
  "s = rev (dropWhile (\<lambda>c. c = CHR ''/'') (rev s))
        @ replicate (length (takeWhile (\<lambda>c. c = CHR ''/'') (rev s))) (CHR ''/'')"
proof -
  have "takeWhile (\<lambda>c. c = CHR ''/'') (rev s) =
        replicate (length (takeWhile (\<lambda>c. c = CHR ''/'') (rev s))) (CHR ''/'')"
    by (rule replicate_length_same [symmetric]) (auto dest: set_takeWhileD)
  then have "rev s = replicate (length (takeWhile (\<lambda>c. c = CHR ''/'') (rev s))) (CHR ''/'')
                 @ dropWhile (\<lambda>c. c = CHR ''/'') (rev s)"
    by (metis takeWhile_dropWhile_id)
  then have "rev (rev s) = rev (replicate (length (takeWhile (\<lambda>c. c = CHR ''/'') (rev s))) (CHR ''/'')
                 @ dropWhile (\<lambda>c. c = CHR ''/'') (rev s))"
    by simp
  then show ?thesis
    by (simp only: rev_rev_ident rev_append rev_replicate)
qed

lemma trim_trailing_slashes_eq:
  assumes "\<exists>c \<in> set s. c \<noteq> CHR ''/''" "length s < bufsz"
  shows "trim_trailing_slashes s bufsz = rev (dropWhile (\<lambda>c. c = CHR ''/'') (rev s))"
proof -
  define t where "t = rev (dropWhile (\<lambda>c. c = CHR ''/'') (rev s))"
  define k where "k = length (takeWhile (\<lambda>c. c = CHR ''/'') (rev s))"
  have s: "s = t @ replicate k (CHR ''/'')"
    unfolding t_def k_def by (rule split_trailing)
  have dw: "dropWhile (\<lambda>c. c = CHR ''/'') (rev s) \<noteq> []"
    using assms(1) by (simp add: dropWhile_eq_Nil_conv) 
  then have t: "t \<noteq> []" by (simp add: t_def)
  have "hd (dropWhile (\<lambda>c. c = CHR ''/'') (rev s)) \<noteq> CHR ''/''"
    using dw by (rule hd_dropWhile)
  then have l: "last t \<noteq> CHR ''/''"
    using dw by (simp add: t_def last_rev)
  have "trim_len s (length s) = length t"
    using trim_len_slashes [OF t l, of k k] s by simp
  moreover have "length t \<le> length s" using s by (metis length_append le_add1)
  ultimately have "trim_trailing_slashes s bufsz = take (length t) s"
    using assms(2) by (simp add: trim_trailing_slashes_def Let_def)
  also have "\<dots> = t" using s by (metis append_eq_conv_conj)
  finally show ?thesis by (simp add: t_def)
qed

lemma strrchr_spec:
  "case strrchr t c of
     None \<Rightarrow> c \<notin> set t
   | Some i \<Rightarrow> i < length t \<and> t ! i = c \<and> c \<notin> set (drop (Suc i) t)"
  by (induction t) (auto split: option.splits)

lemma basename_eq: "basename t = rev (takeWhile (\<lambda>c. c \<noteq> CHR ''/'') (rev t))"
proof (cases "strrchr t (CHR ''/'')")
  case None
  then have "CHR ''/'' \<notin> set t"
    using strrchr_spec [where t = t and c = "CHR ''/''"] by simp
  then have tw: "takeWhile (\<lambda>c. c \<noteq> CHR ''/'') (rev t) = rev t"
    by (auto simp: takeWhile_eq_all_conv)
  show ?thesis
    by (simp only: basename_def None option.case tw rev_rev_ident)
next
  case (Some i)
  then have i: "i < length t" "t ! i = CHR ''/''" "CHR ''/'' \<notin> set (drop (Suc i) t)"
    using strrchr_spec [where t = t and c = "CHR ''/''"] by simp_all
  have "t = take i t @ CHR ''/'' # drop (Suc i) t"
    using i(1,2) by (metis id_take_nth_drop)
  then have "rev t = rev (drop (Suc i) t) @ CHR ''/'' # rev (take i t)"
    by (metis rev_append rev.simps(2) append_assoc append_Cons append_Nil)
  then have tw: "takeWhile (\<lambda>c. c \<noteq> CHR ''/'') (rev t) = rev (drop (Suc i) t)"
    using i(3) by (auto simp: takeWhile_tail)
  show ?thesis
    by (simp only: basename_def Some option.case tw rev_rev_ident Suc_eq_plus1)
qed

lemma last_component_nonempty:
  assumes "\<exists>c \<in> set s. c \<noteq> CHR ''/''"
  shows "last_component s \<noteq> [] \<and> CHR ''/'' \<notin> set (last_component s)"
proof -
  have dw: "dropWhile (\<lambda>c. c = CHR ''/'') (rev s) \<noteq> []"
    using assms by (simp add: dropWhile_eq_Nil_conv)
  then have "hd (dropWhile (\<lambda>c. c = CHR ''/'') (rev s)) \<noteq> CHR ''/''"
    by (rule hd_dropWhile)
  then have "takeWhile (\<lambda>c. c \<noteq> CHR ''/'') (dropWhile (\<lambda>c. c = CHR ''/'') (rev s)) \<noteq> []"
    using dw by (cases "dropWhile (\<lambda>c. c = CHR ''/'') (rev s)") simp_all
  moreover have "CHR ''/'' \<notin> set (takeWhile (\<lambda>c. c \<noteq> CHR ''/'') xs)" for xs
    by (auto dest: set_takeWhileD)
  ultimately show ?thesis by (simp add: last_component_def)
qed

lemma basename_trim:
  assumes "\<exists>c \<in> set src. c \<noteq> CHR ''/''" "length src < PATH_MAX"
  shows "basename (trim_trailing_slashes src PATH_MAX) = last_component src"
  by (simp add: trim_trailing_slashes_eq [OF assms] basename_eq last_component_def)

text \<open>
  Claim C8, as the code has it. For a source directory whose path has a character other
  than the separator (and is shorter than \<^verbatim>\<open>PATH_MAX\<close>, as every path that \<^verbatim>\<open>stat\<close>
  accepts), the name computed by \<^verbatim>\<open>main\<close> is the final component of the path after
  its trailing separators are stripped; it is not empty and has no separator in it. When
  the scan has found a file, \<^verbatim>\<open>destination/name\<close> fits and \<^verbatim>\<open>mkdir\<close> does not fail,
  the folder \<^verbatim>\<open>destination/name\<close> is the one created, \<^verbatim>\<open>copy_dir\<close> is called on the
  source as given and on that folder, and the exit status is 0.
\<close>

theorem main_dir_basename:
  assumes "\<exists>c \<in> set src. c \<noteq> CHR ''/''" "length src < PATH_MAX"
    and "lookup E src = Some n" "stat n = Some S_IFDIR" "count_files src n 0 \<noteq> 0"
    and "length (dst @ ''/'' @ last_component src) < PATH_MAX"
    and "mkdir_res E (dst @ ''/'' @ last_component src) \<noteq> Efail"
  shows "basename (trim_trailing_slashes src PATH_MAX) = last_component src \<and>
         last_component src \<noteq> [] \<and> CHR ''/'' \<notin> set (last_component src) \<and>
         (let newdst = dst @ ''/'' @ last_component src;
              s0 = init\<lparr>total_files := count_files src n 0\<rparr>;
              s1 = snd (mkdir E newdst s0)
          in (mkdir_res E newdst = Created \<longrightarrow> mkdirs s1 = [newdst]) \<and>
             main E [prog, src, dst] = (0, print Done (snd (copy_dir E src newdst n s1))))"
proof -
  let ?newdst = "dst @ ''/'' @ last_component src"
  let ?s0 = "init\<lparr>total_files := count_files src n 0\<rparr>"
  have b: "basename (trim_trailing_slashes src PATH_MAX) = last_component src"
    using assms(1,2) by (rule basename_trim)
  have mk: "mkdir E ?newdst ?s0 =
      (True, if mkdir_res E ?newdst = Created then ?s0\<lparr>mkdirs := [?newdst]\<rparr> else ?s0)"
    using assms(7) by (simp add: mkdir_def init_def split: mkdir_result.splits)
  have md: "main_dir E src dst n ?s0 =
      (0, print Done (snd (copy_dir E src ?newdst n (snd (mkdir E ?newdst ?s0)))))"
    unfolding main_dir_def Let_def b mk using assms(6) by simp
  have "main E [prog, src, dst] = main_dir E src dst n ?s0"
    using assms(3,4,5) by (simp add: main_def Let_def S_ISDIR_def init_def)
  then have m: "main E [prog, src, dst] =
      (0, print Done (snd (copy_dir E src ?newdst n (snd (mkdir E ?newdst ?s0)))))"
    using md by simp
  have c: "mkdir_res E ?newdst = Created \<longrightarrow> mkdirs (snd (mkdir E ?newdst ?s0)) = [?newdst]"
    unfolding mk by simp
  show ?thesis
    using b last_component_nonempty [OF assms(1)] m c by (simp add: Let_def)
qed

theorem main_dir_basename_witness:
  "last_component ''/a/dir/'' = ''dir'' \<and>
   basename (trim_trailing_slashes ''/a/dir/'' PATH_MAX) = ''dir'' \<and>
   main env_slash [''cpx'', ''/a/dir/'', ''/b''] =
     (0, print Done (snd (copy_dir env_slash ''/a/dir/'' ''/b/dir''
           (Dir True [(''f'', Reg True [1, 2, 3] None)])
           (init\<lparr>total_files := 1, mkdirs := [''/b/dir'']\<rparr>))))"
proof -
  have lc: "last_component ''/a/dir/'' = ''dir''"
    by (simp add: last_component_def)
  have cnt: "count_files ''/a/dir/'' (Dir True [(''f'', Reg True [1, 2, 3] None)]) 0 = 1"
    by (simp add: count_files_node PATH_MAX_def)
  have mk: "snd (mkdir env_slash ''/b/dir'' (init\<lparr>total_files := Suc 0\<rparr>)) =
            init\<lparr>total_files := Suc 0, mkdirs := [''/b/dir'']\<rparr>"
    by (simp add: mkdir_def env_slash_def env_ok_def init_def)
  have h: "\<exists>c \<in> set ''/a/dir/''. c \<noteq> CHR ''/''" "length ''/a/dir/'' < PATH_MAX"
    "lookup env_slash ''/a/dir/'' = Some (Dir True [(''f'', Reg True [1, 2, 3] None)])"
    "stat (Dir True [(''f'', Reg True [1, 2, 3] None)]) = Some S_IFDIR"
    "count_files ''/a/dir/'' (Dir True [(''f'', Reg True [1, 2, 3] None)]) 0 \<noteq> 0"
    "length (''/b'' @ ''/'' @ last_component ''/a/dir/'') < PATH_MAX"
    "mkdir_res env_slash (''/b'' @ ''/'' @ last_component ''/a/dir/'') \<noteq> Efail"
    by (simp_all add: PATH_MAX_def env_slash_def env_ok_def cnt lc)
  show ?thesis
    using main_dir_basename [OF h, of "''cpx''"]
    by (simp add: lc cnt mk Let_def)
qed

text \<open>
  Claim C8 as stated covers every path that ends in separators. For the root directory
  the loop \<^verbatim>\<open>while (len > 1 && ...)\<close> keeps the one separator, \<^verbatim>\<open>strrchr\<close> finds it,
  and the name is the empty string: the folder that \<^verbatim>\<open>main\<close> asks \<^verbatim>\<open>mkdir\<close> for is
  \<^verbatim>\<open>/b/\<close>, the destination itself. In this run \<^verbatim>\<open>mkdir\<close> fails, the message names the
  path, and the exit status is 1.
\<close>

theorem main_root_source_counterexample:
  "basename (trim_trailing_slashes ''/'' PATH_MAX) = '''' \<and>
   main env_root [''cpx'', ''/'', ''/b''] =
     (1, report (EMkdir ''/b/'') (init\<lparr>total_files := 1\<rparr>))"
proof -
  let ?n = "Dir True [(''f'', Reg True [] None)]"
  have trim: "trim_trailing_slashes ''/'' PATH_MAX = ''/''"
    by (simp add: trim_trailing_slashes_def trim_len.simps PATH_MAX_def)
  have base: "basename ''/'' = ''''"
    by (simp add: basename_def)
  have cnt: "count_files ''/'' ?n 0 = 1"
    by (simp add: count_files_node PATH_MAX_def)
  have lk: "lookup env_root ''/'' = Some ?n"
    by (simp add: env_root_def)
  have mk: "mkdir env_root ''/b/'' s = (False, s)" if "mkdirs s = []" for s
    using that by (simp add: mkdir_def env_root_def)
  have len: "length ''/b/'' < PATH_MAX"
    by (simp add: PATH_MAX_def)
  have md: "main_dir env_root ''/'' ''/b'' ?n s = (1, report (EMkdir ''/b/'') s)"
    if "mkdirs s = []" for s
    using len mk [OF that] by (simp add: main_dir_def Let_def trim base)
  have "main env_root [''cpx'', ''/'', ''/b''] =
        main_dir env_root ''/'' ''/b'' ?n (init\<lparr>total_files := 1\<rparr>)"
    by (simp add: main_def Let_def lk cnt S_ISDIR_def init_def)
  then show ?thesis
    using md [of "init\<lparr>total_files := 1\<rparr>"] by (simp add: trim base init_def)
qed

section \<open>The scan counts the regular files\<close>

lemma count_files_loop_sum:
  "count_files_loop p es c = c + sum_list (map (count_entry p) es)"
proof (induction es arbitrary: c)
  case Nil
  show ?case by simp
next
  case (Cons e es)
  have "count_files_loop p (e # es) c = count_files_loop p es (count_files_loop p [e] c)"
    by (simp add: Let_def)
  also have "\<dots> = count_files_loop p [e] c + sum_list (map (count_entry p) es)"
    by (rule Cons.IH)
  also have "count_files_loop p [e] c = c + count_entry p e"
    unfolding count_entry_def by (rule count_files_add_aux(2)) 
  finally show ?case by simp
qed

lemma count_files_loop_mset:
  assumes "mset es = mset es'"
  shows "count_files_loop p es c = count_files_loop p es' c"
proof -
  have "mset (map (count_entry p) es) = mset (map (count_entry p) es')"
    using assms by (simp only: mset_map)
  then have "sum_mset (mset (map (count_entry p) es)) = sum_mset (mset (map (count_entry p) es'))"
    by (rule arg_cong)
  then have "sum_list (map (count_entry p) es) = sum_list (map (count_entry p) es')"
    by (simp only: sum_mset_sum_list)
  then show ?thesis
    by (simp only: count_files_loop_sum)
qed

lemma count_entry_cong:
  assumes "fst e = fst e'" "\<And>q. count_files q (snd e) 0 = count_files q (snd e') 0"
  shows "count_entry p e = count_entry p e'"
proof -
  have "count_files (p @ ''/'' @ fst e') (snd e) 0 = count_files (p @ ''/'' @ fst e') (snd e') 0"
    by (rule assms(2))
  then show ?thesis
    using assms(1) by (simp add: count_entry_def Let_def)
qed

lemma count_files_reordered:
  "reordered n n' \<Longrightarrow> count_files p n c = count_files p n' c"
proof (induction arbitrary: p c rule: reordered.induct)
  case (same n)
  show ?case by (rule refl)
next
  case (dir es es' es'' ok)
  have "map (count_entry p) es = map (count_entry p) es'"
    using dir.IH
  proof (induction rule: list_all2_induct)
    case Nil
    show ?case by simp
  next
    case (Cons e es e' es')
    have "count_entry p e = count_entry p e'"
    proof (rule count_entry_cong)
      show "fst e = fst e'" using Cons.hyps(1) by blast
      show "count_files q (snd e) 0 = count_files q (snd e') 0" for q
        using Cons.hyps(1) by blast
    qed
    then show ?case using Cons.IH by simp
  qed
  then have "count_files_loop p es c = count_files_loop p es' c"
    by (simp only: count_files_loop_sum)
  also have "\<dots> = count_files_loop p es'' c"
    using dir.hyps by (rule count_files_loop_mset)
  finally show ?case by (simp add: count_files_Dir)
next
  case (link n n')
  then show ?case by (simp only: count_files_Link)
next
  case (hidden n n')
  show ?case by (simp only: count_files_Hidden)
qed

lemma long_name_props: "long_name \<noteq> ''.''" "long_name \<noteq> ''..''" "length long_name = 255"
proof -
  show l: "length long_name = 255" by (simp add: long_name_def)
  show "long_name \<noteq> ''.''"
  proof
    assume "long_name = ''.''"
    then have "length long_name = length ''.''" by (rule arg_cong)
    then show False using l by simp
  qed
  show "long_name \<noteq> ''..''"
  proof
    assume "long_name = ''..''"
    then have "length long_name = length ''..''" by (rule arg_cong)
    then show False using l by simp
  qed
qed

lemma count_files_chain:
  "count_files p (chain k) c = (if k = 0 \<or> length p + 256 * k < PATH_MAX then c + 1 else c)"
proof (induction k arbitrary: p)
  case 0
  show ?case by (simp add: count_files_node)
next
  case (Suc k)
  let ?full = "p @ ''/'' @ long_name"
  have len: "length ?full = length p + 256"
    by (simp add: long_name_props)
  have step: "count_files p (chain (Suc k)) c =
      (if PATH_MAX \<le> length ?full then c else count_files ?full (chain k) c)"
    by (simp add: count_files_node long_name_props Let_def)
  have ih: "count_files ?full (chain k) c =
      (if k = 0 \<or> length ?full + 256 * k < PATH_MAX then c + 1 else c)"
    by (rule Suc.IH)
  show ?case
    unfolding step ih len by auto
qed

lemma regular_files_chain: "regular_files (chain k) = 1"
  by (induction k) (simp_all add: long_name_props)

text \<open>
  Claim C1 as stated: the scan counts every regular file, to unlimited depth. The file
  below 16 directories with names of 255 characters has a path of 4100 characters from
  \<^verbatim>\<open>/src\<close>. The scan composes the path of the last directory, finds
  \<^verbatim>\<open>rc >= sizeof(full)\<close> and skips the entry: the count is 0, the tree has one regular
  file.
\<close>

theorem count_files_deep_counterexample:
  "count_files ''/src'' (chain 16) 0 = 0 \<and> regular_files (chain 16) = 1"
  by (simp add: count_files_chain regular_files_chain PATH_MAX_def)

text \<open>
  Claim C1, as the code has it. In a tree without symbolic links in which \<^verbatim>\<open>stat\<close>
  succeeds on every entry, every directory can be opened and every composed path is
  shorter than \<^verbatim>\<open>PATH_MAX\<close>, the scan started at 0 ends with the number of regular
  files of the tree. For every tree, the result of the scan is the same when the entries
  of its directories come in another order.
\<close>

theorem count_files_exact:
  "(plain p n \<longrightarrow> count_files p n 0 = regular_files n) \<and>
   (reordered n n' \<longrightarrow> count_files p n c = count_files p n' c)"
  using count_files_plain(1) [of p n 0] count_files_reordered [of n n' p c] by simp

theorem count_files_exact_witness:
  "plain ''/src'' (Dir True [(''a'', Reg True [1] None), (''sub'', Dir True [(''b'', Reg True [] None)])]) \<and>
   reordered (Dir True [(''a'', Reg True [1] None), (''sub'', Dir True [(''b'', Reg True [] None)])])
             (Dir True [(''sub'', Dir True [(''b'', Reg True [] None)]), (''a'', Reg True [1] None)]) \<and>
   count_files ''/src''
     (Dir True [(''a'', Reg True [1] None), (''sub'', Dir True [(''b'', Reg True [] None)])]) 0 = 2 \<and>
   count_files ''/src''
     (Dir True [(''sub'', Dir True [(''b'', Reg True [] None)]), (''a'', Reg True [1] None)]) 0 = 2"
proof -
  let ?n = "Dir True [(''a'', Reg True [1] None), (''sub'', Dir True [(''b'', Reg True [] None)])]"
  let ?n' = "Dir True [(''sub'', Dir True [(''b'', Reg True [] None)]), (''a'', Reg True [1] None)]"
  have p: "plain ''/src'' ?n"
    by (simp add: PATH_MAX_def)
  have r: "reordered ?n ?n'"
    by (rule reordered.dir [where es' = "[(''a'', Reg True [1] None), (''sub'', Dir True [(''b'', Reg True [] None)])]"])
       (simp_all add: reordered.same)
  have f: "regular_files ?n = 2"
    by simp
  show ?thesis
    using count_files_exact [of "''/src''" ?n ?n' 0] p r f by simp
qed

section \<open>The counters during the copy pass\<close>




















subsection \<open>Every increment is a call of \<^verbatim>\<open>copy_file\<close> that returned 0\<close>










subsection \<open>The run writes below its destination\<close>











section \<open>A file that cannot be opened does not stop the copy\<close>















end
